theory Spec2Isabelle
  imports Main "HOL-Library.Word"
begin

unbundle bit_operations_syntax

section \<open>JavaScript values used by GeneratorUtils\<close>

text \<open>
  The module works on \<open>Uint8Array\<close>s and on Numbers. An element of a \<open>Uint8Array\<close> is an
  8-bit word. A Number is modelled as \<open>NaN\<close> or an integer: every function below is applied
  to integer-valued Numbers, and the arithmetic it performs on them (sums of four shifted
  bytes, \<open>high * 2^32 + low\<close> below \<open>2^53\<close>, division by the power of two \<open>2^32\<close>) is exact
  on IEEE doubles in the ranges the theorems state. Reading a typed array outside its
  bounds gives \<open>undefined\<close>, written \<open>None\<close>.
\<close>

type_synonym byte = "8 word"

datatype number = NaN | Num int

datatype error =
    UnexpectedSize nat
  | SyntaxError
  | RangeError
  | UnexpectedBufferSize
  | ConvertingUintValue int error
  | UnexpectedBufferSizeRead
  | ConvertingBuffer error
  | OutOfRange int

text \<open>\<open>ToNumber\<close> on the result of an element read: \<open>undefined\<close> becomes \<open>NaN\<close>.\<close>

definition ToNumber :: "number option \<Rightarrow> number" where
  "ToNumber v = (case v of None \<Rightarrow> NaN | Some n \<Rightarrow> n)"

text \<open>\<open>ToInt32\<close>, \<open>ToUint32\<close> and \<open>ToUint8\<close> of ECMAScript: \<open>NaN\<close> is 0, an integer is
  reduced modulo the width, and \<open>ToInt32\<close> reads the result as two's complement.\<close>

definition ToInt32 :: "number \<Rightarrow> int" where
  "ToInt32 v = (case v of NaN \<Rightarrow> 0 | Num x \<Rightarrow> (x + 2 ^ 31) mod 2 ^ 32 - 2 ^ 31)"

definition ToUint32 :: "number \<Rightarrow> int" where
  "ToUint32 v = (case v of NaN \<Rightarrow> 0 | Num x \<Rightarrow> x mod 2 ^ 32)"

definition ToUint8 :: "number \<Rightarrow> byte" where
  "ToUint8 v = (case v of NaN \<Rightarrow> 0 | Num x \<Rightarrow> word_of_int x)"

text \<open>The operators \<open><<\<close>, \<open>>>\<close>, \<open>>>>\<close>, \<open>&\<close> and \<open>+\<close>. The shift count is taken
  modulo 32; \<open>>>\<close> is the arithmetic shift (floor division of the signed value).\<close>

definition shl :: "number \<Rightarrow> nat \<Rightarrow> number" where
  "shl v n = Num (ToInt32 (Num (ToInt32 v * 2 ^ (n mod 32))))"

definition sar :: "number \<Rightarrow> nat \<Rightarrow> number" where
  "sar v n = Num (ToInt32 v div 2 ^ (n mod 32))"

definition ushr :: "number \<Rightarrow> nat \<Rightarrow> number" where
  "ushr v n = Num (ToUint32 v div 2 ^ (n mod 32))"

definition band :: "number \<Rightarrow> number \<Rightarrow> number" where
  "band a b = Num (ToInt32 a AND ToInt32 b)"

definition plus_number :: "number \<Rightarrow> number \<Rightarrow> number" where
  "plus_number a b = (case (a, b) of (Num x, Num y) \<Rightarrow> Num (x + y) | _ \<Rightarrow> NaN)"

definition times_number :: "number \<Rightarrow> number \<Rightarrow> number" where
  "times_number a b = (case (a, b) of (Num x, Num y) \<Rightarrow> Num (x * y) | _ \<Rightarrow> NaN)"

text \<open>\<open>bytes[index]\<close> on a \<open>Uint8Array\<close>: the element when \<open>0 \<le> index < length\<close>,
  \<open>undefined\<close> otherwise (no exception).\<close>

definition element :: "byte list \<Rightarrow> int \<Rightarrow> number option" where
  "element bytes index =
     (if 0 \<le> index \<and> index < int (length bytes) then Some (Num (uint (bytes ! nat index)))
      else None)"

section \<open>readUint32At\<close>

definition readUint32At :: "byte list \<Rightarrow> int \<Rightarrow> number" where
  "readUint32At bytes index =
     ushr (plus_number
            (plus_number
              (plus_number (ToNumber (element bytes index))
                           (shl (ToNumber (element bytes (index + 1))) 8))
              (shl (ToNumber (element bytes (index + 2))) 16))
            (shl (ToNumber (element bytes (index + 3))) 24)) 0"

section \<open>uint8ToInt8\<close>

definition uint8ToInt8 :: "int \<Rightarrow> error + number" where
  "uint8ToInt8 input =
     (if 0xFF < input then Inl (OutOfRange input)
      else Inr (sar (shl (Num input) 24) 24))"

section \<open>compact and fromUint\<close>

text \<open>\<open>compact\<close> returns a Number or the array it was given. An array shorter than two
  elements makes \<open>high\<close> (and perhaps \<open>low\<close>) \<open>undefined\<close>: the comparison with \<open>undefined\<close>
  is false and the arithmetic gives \<open>NaN\<close>.\<close>

datatype compacted = Numeric number | Uint64 "int list"

definition element_of :: "int list \<Rightarrow> nat \<Rightarrow> number option" where
  "element_of xs i = (if i < length xs then Some (Num (xs ! i)) else None)"

definition compact :: "int list \<Rightarrow> compacted" where
  "compact uint64 =
     (let low = element_of uint64 0; high = element_of uint64 1
      in if (case high of Some (Num h) \<Rightarrow> 0x00200000 \<le> h | _ \<Rightarrow> False) then Uint64 uint64
         else Numeric (plus_number (times_number (ToNumber high) (Num 0x100000000))
                                   (ToNumber low)))"

text \<open>\<open>number / 0x100000000\<close> is a division of doubles by a power of two, hence exact;
  \<open>>>> 0\<close> truncates the quotient towards zero and reduces it modulo \<open>2^32\<close>.\<close>

definition truncated_quotient :: "int \<Rightarrow> int \<Rightarrow> int" where
  "truncated_quotient a b = sgn a * sgn b * (\<bar>a\<bar> div \<bar>b\<bar>)"

definition fromUint :: "int \<Rightarrow> int list" where
  "fromUint n =
     [ToUint32 (ushr (band (Num n) (Num 0xFFFFFFFF)) 0),
      ToUint32 (ushr (Num (truncated_quotient n 0x100000000)) 0)]"

section \<open>uintToBuffer and bufferToUint\<close>

text \<open>
  A \<open>Uint8Array\<close> is a view of \<open>byteLength\<close> bytes, starting at \<open>byteOffset\<close>, on an
  \<open>ArrayBuffer\<close>. \<open>bufferToUint\<close> builds its \<open>DataView\<close> on the whole \<open>ArrayBuffer\<close> of its
  argument, so the view is modelled with its buffer. \<open>elements\<close> are the bytes seen through
  the view.
\<close>

record Uint8Array =
  buffer :: "byte list"
  byteOffset :: nat
  byteLength :: nat

definition elements :: "Uint8Array \<Rightarrow> byte list" where
  "elements a = take (byteLength a) (drop (byteOffset a) (buffer a))"

text \<open>The value of a byte sequence read least significant byte first.\<close>

fun little_endian_value :: "byte list \<Rightarrow> int" where
  "little_endian_value [] = 0"
| "little_endian_value (b # bs) = uint b + 256 * little_endian_value bs"

text \<open>\<open>NumericToRawBytes\<close> and \<open>RawBytesToNumeric\<close> for the unsigned element types: the
  value modulo \<open>2^(8 * elementSize)\<close>, in \<open>elementSize\<close> bytes.\<close>

fun little_endian_bytes :: "nat \<Rightarrow> int \<Rightarrow> byte list" where
  "little_endian_bytes 0 v = []"
| "little_endian_bytes (Suc k) v = word_of_int v # little_endian_bytes k (v div 256)"

definition NumericToRawBytes :: "nat \<Rightarrow> int \<Rightarrow> bool \<Rightarrow> byte list" where
  "NumericToRawBytes elementSize v littleEndian =
     (if littleEndian then little_endian_bytes elementSize v
      else rev (little_endian_bytes elementSize v))"

definition RawBytesToNumeric :: "byte list \<Rightarrow> bool \<Rightarrow> int" where
  "RawBytesToNumeric rawBytes littleEndian =
     little_endian_value (if littleEndian then rawBytes else rev rawBytes)"

text \<open>\<open>SetViewValue\<close> and \<open>GetViewValue\<close> of a \<open>DataView\<close> on a whole buffer: a
  \<open>RangeError\<close> when the element does not fit, otherwise the bytes are written or read at
  \<open>requestIndex\<close>.\<close>

definition SetViewValue :: "byte list \<Rightarrow> nat \<Rightarrow> bool \<Rightarrow> nat \<Rightarrow> int \<Rightarrow> error + byte list" where
  "SetViewValue view requestIndex littleEndian elementSize v =
     (if length view < requestIndex + elementSize then Inl RangeError
      else Inr (take requestIndex view @ NumericToRawBytes elementSize v littleEndian
                @ drop (requestIndex + elementSize) view))"

definition GetViewValue :: "byte list \<Rightarrow> nat \<Rightarrow> bool \<Rightarrow> nat \<Rightarrow> error + int" where
  "GetViewValue view requestIndex littleEndian elementSize =
     (if length view < requestIndex + elementSize then Inl RangeError
      else Inr (RawBytesToNumeric (take elementSize (drop requestIndex view)) littleEndian))"

definition setUint8 :: "byte list \<Rightarrow> nat \<Rightarrow> int \<Rightarrow> error + byte list" where
  "setUint8 view requestIndex v = SetViewValue view requestIndex True 1 v"

definition setUint16 :: "byte list \<Rightarrow> nat \<Rightarrow> int \<Rightarrow> bool \<Rightarrow> error + byte list" where
  "setUint16 view requestIndex v littleEndian = SetViewValue view requestIndex littleEndian 2 v"

definition setUint32 :: "byte list \<Rightarrow> nat \<Rightarrow> int \<Rightarrow> bool \<Rightarrow> error + byte list" where
  "setUint32 view requestIndex v littleEndian = SetViewValue view requestIndex littleEndian 4 v"

definition getUint8 :: "byte list \<Rightarrow> nat \<Rightarrow> error + int" where
  "getUint8 view requestIndex = GetViewValue view requestIndex True 1"

definition getUint16 :: "byte list \<Rightarrow> nat \<Rightarrow> bool \<Rightarrow> error + int" where
  "getUint16 view requestIndex littleEndian = GetViewValue view requestIndex littleEndian 2"

definition getUint32 :: "byte list \<Rightarrow> nat \<Rightarrow> bool \<Rightarrow> error + int" where
  "getUint32 view requestIndex littleEndian = GetViewValue view requestIndex littleEndian 4"

text \<open>\<open>new ArrayBuffer(bufferSize)\<close> is outside the \<open>try\<close>: a negative size (or one above
  \<open>2^53 - 1\<close>) raises a \<open>RangeError\<close> that is not wrapped. Everything raised inside the
  \<open>try\<close> is caught and raised again with the value in the message.\<close>

definition uintToBuffer :: "int \<Rightarrow> int \<Rightarrow> error + Uint8Array" where
  "uintToBuffer uintValue bufferSize =
     (if bufferSize < 0 \<or> 2 ^ 53 - 1 < bufferSize then Inl RangeError
      else
        let dataView = replicate (nat bufferSize) (0 :: byte) in
        case (if 1 = bufferSize then setUint8 dataView 0 uintValue
              else if 2 = bufferSize then setUint16 dataView 0 uintValue True
              else if 4 = bufferSize then setUint32 dataView 0 uintValue True
              else Inl UnexpectedBufferSize) of
          Inl e \<Rightarrow> Inl (ConvertingUintValue uintValue e)
        | Inr written \<Rightarrow>
            Inr \<lparr>buffer = written, byteOffset = 0, byteLength = nat bufferSize\<rparr>)"

definition bufferToUint :: "Uint8Array \<Rightarrow> error + int" where
  "bufferToUint a =
     (let dataView = buffer a in
      case (if 1 = byteLength a then getUint8 dataView 0
            else if 2 = byteLength a then getUint16 dataView 0 True
            else if 4 = byteLength a then getUint32 dataView 0 True
            else Inl UnexpectedBufferSizeRead) of
        Inl e \<Rightarrow> Inl (ConvertingBuffer e)
      | Inr n \<Rightarrow> Inr n)"

section \<open>Strings of digits\<close>

text \<open>The strings that reach \<open>BigInt\<close> and \<open>parseInt\<close> in this module are made of
  hexadecimal digits and a minus sign. White space is the ASCII white space (tab, line
  feed, vertical tab, form feed, carriage return, space); the white space characters of
  ECMAScript beyond ASCII do not occur in a \<open>string\<close> of 8-bit characters.\<close>

definition is_whitespace :: "char \<Rightarrow> bool" where
  "is_whitespace c = (c \<in> set [CHR 0x09, CHR 0x0A, CHR 0x0B, CHR 0x0C, CHR 0x0D, CHR 0x20])"

definition digit_of :: "char \<Rightarrow> nat option" where
  "digit_of c =
     (let n = (of_char c :: nat) in
      if 48 \<le> n \<and> n \<le> 57 then Some (n - 48)
      else if 97 \<le> n \<and> n \<le> 102 then Some (n - 87)
      else if 65 \<le> n \<and> n \<le> 70 then Some (n - 55)
      else None)"

fun digits_value :: "nat \<Rightarrow> nat \<Rightarrow> string \<Rightarrow> nat option" where
  "digits_value radix acc [] = Some acc"
| "digits_value radix acc (c # cs) =
     (case digit_of c of
        None \<Rightarrow> None
      | Some d \<Rightarrow> if d < radix then digits_value radix (acc * radix + d) cs else None)"

definition parse_digits :: "nat \<Rightarrow> string \<Rightarrow> nat option" where
  "parse_digits radix cs = (if cs = [] then None else digits_value radix 0 cs)"

text \<open>\<open>StringToBigInt\<close>: surrounding white space is dropped; the empty string is 0; a
  prefix \<open>0x\<close>, \<open>0o\<close> or \<open>0b\<close> selects the radix; without a prefix the digits are decimal,
  with an optional sign. Anything else is not a BigInt, and \<open>BigInt(string)\<close> raises a
  \<open>SyntaxError\<close>.\<close>

definition signed_decimal :: "string \<Rightarrow> int option" where
  "signed_decimal t =
     (case t of
        [] \<Rightarrow> None
      | c # cs \<Rightarrow>
          if c = CHR ''+'' then map_option int (parse_digits 10 cs)
          else if c = CHR ''-'' then map_option (\<lambda>n. - int n) (parse_digits 10 cs)
          else map_option int (parse_digits 10 t))"

definition StringToBigInt :: "string \<Rightarrow> int option" where
  "StringToBigInt str =
     (let t = rev (dropWhile is_whitespace (rev (dropWhile is_whitespace str))) in
      case t of
        [] \<Rightarrow> Some 0
      | [c] \<Rightarrow> signed_decimal t
      | c0 # c1 # cs \<Rightarrow>
          if c0 = CHR ''0'' \<and> (c1 = CHR ''x'' \<or> c1 = CHR ''X'') then map_option int (parse_digits 16 cs)
          else if c0 = CHR ''0'' \<and> (c1 = CHR ''o'' \<or> c1 = CHR ''O'') then map_option int (parse_digits 8 cs)
          else if c0 = CHR ''0'' \<and> (c1 = CHR ''b'' \<or> c1 = CHR ''B'') then map_option int (parse_digits 2 cs)
          else signed_decimal t)"

definition BigInt :: "string \<Rightarrow> error + int" where
  "BigInt s = (case StringToBigInt s of None \<Rightarrow> Inl SyntaxError | Some n \<Rightarrow> Inr n)"

text \<open>\<open>parseInt(string, 16)\<close>: leading white space, a sign and a prefix \<open>0x\<close> are skipped,
  then the longest run of hexadecimal digits is read; no digit at all gives \<open>NaN\<close>.\<close>

definition parseInt16 :: "string \<Rightarrow> number" where
  "parseInt16 str =
     (let S = dropWhile is_whitespace str;
          negative = (case S of [] \<Rightarrow> False | c # cs \<Rightarrow> c = CHR ''-'');
          S1 = (case S of [] \<Rightarrow> [] | c # cs \<Rightarrow> if c = CHR ''+'' \<or> c = CHR ''-'' then cs else S);
          S2 = (case S1 of
                  c0 # c1 # cs \<Rightarrow>
                    if c0 = CHR ''0'' \<and> (c1 = CHR ''x'' \<or> c1 = CHR ''X'') then cs else S1
                | _ \<Rightarrow> S1);
          Z = takeWhile (\<lambda>c. case digit_of c of None \<Rightarrow> False | Some d \<Rightarrow> d < 16) S2
      in case parse_digits 16 Z of
           None \<Rightarrow> NaN
         | Some n \<Rightarrow> Num (if negative then - int n else int n))"

text \<open>\<open>BigInt.prototype.toString(16)\<close>: lower-case digits, no leading zero, a minus sign
  for a negative value. \<open>padStart(n, '0')\<close> fills on the left up to \<open>n\<close> characters.\<close>

definition hex_char :: "nat \<Rightarrow> char" where
  "hex_char d = ''0123456789abcdef'' ! d"

fun hex_digits :: "nat \<Rightarrow> string" where
  "hex_digits n = (if n < 16 then [hex_char n] else hex_digits (n div 16) @ [hex_char (n mod 16)])"

declare hex_digits.simps [simp del]

definition toString16 :: "int \<Rightarrow> string" where
  "toString16 n = (if n < 0 then CHR ''-'' # hex_digits (nat (- n)) else hex_digits (nat n))"

definition padStart :: "nat \<Rightarrow> char \<Rightarrow> string \<Rightarrow> string" where
  "padStart n c s = replicate (n - length s) c @ s"

section \<open>bufferToBigInt and bigIntToBuffer\<close>

definition Nibble_To_Char_Map :: "char list" where
  "Nibble_To_Char_Map = ''0123456789ABCDEF''"

text \<open>
  \<open>input.reverse()\<close> reverses the caller's array in place and returns that same array, so
  the function has an effect besides its result. The model returns the result (the BigInt
  or the error thrown) together with the contents of the caller's array after the call.
  The exception for a wrong length is thrown before the array is touched. The two indices
  into \<open>Nibble_To_Char_Map\<close> are below 16 for every byte.
\<close>

definition bufferToBigInt :: "byte list \<Rightarrow> (error + int) \<times> byte list" where
  "bufferToBigInt input =
     (if 8 \<noteq> length input then (Inl (UnexpectedSize (length input)), input)
      else
        let reversed = rev input;
            s = foldl (\<lambda>s byte. s @ [Nibble_To_Char_Map ! unat (drop_bit 4 byte)]
                                  @ [Nibble_To_Char_Map ! unat (byte AND 0x0F)])
                      [] reversed
        in (BigInt s, reversed))"

text \<open>
  \<open>len\<close> is \<open>hex.length / 2\<close>, a half-integer when the string has an odd length:
  \<open>new Uint8Array(len)\<close> has \<open>hex.length div 2\<close> elements, the loop runs while
  \<open>2 * i < hex.length\<close>, and a write beyond the end of the typed array is ignored, as a list
  update beyond the end is.
\<close>

function bigIntToBuffer_loop :: "string \<Rightarrow> byte list \<Rightarrow> nat \<Rightarrow> nat \<Rightarrow> byte list" where
  "bigIntToBuffer_loop hex uint8 i j =
     (if 2 * i < length hex
      then bigIntToBuffer_loop hex (uint8[i := ToUint8 (parseInt16 (take 2 (drop j hex)))])
             (i + 1) (j + 2)
      else uint8)"
  by pat_completeness auto

termination
  by (relation "measure (\<lambda>(hex, uint8, i, j). length hex - 2 * i)") auto

declare bigIntToBuffer_loop.simps [simp del]

definition bigIntToBuffer :: "int \<Rightarrow> byte list" where
  "bigIntToBuffer input =
     (let hex = padStart 16 (CHR ''0'') (toString16 input);
          uint8 = replicate (length hex div 2) (0 :: byte)
      in bigIntToBuffer_loop hex uint8 0 0)"

text \<open>The expression \<open>bigIntToBuffer(bufferToBigInt(b))\<close>: an exception of the inner
  call ends the evaluation, otherwise its result is encoded.\<close>

definition round_trip :: "byte list \<Rightarrow> error + byte list" where
  "round_trip b =
     (case fst (bufferToBigInt b) of
        Inl e \<Rightarrow> Inl e
      | Inr n \<Rightarrow> Inr (bigIntToBuffer n))"

section \<open>Auxiliary notions for the statements\<close>

text \<open>The byte at an index, 0 where the array has no element there.\<close>

definition byte_or_zero :: "byte list \<Rightarrow> int \<Rightarrow> int" where
  "byte_or_zero bytes i = (if 0 \<le> i \<and> i < int (length bytes) then uint (bytes ! nat i) else 0)"

text \<open>The hexadecimal digits of a number in a fixed width, and the two digits of a byte:
  the shapes that \<open>padStart\<close> of \<open>toString(16)\<close> takes below \<open>16^k\<close>.\<close>

fun fixed_hex :: "nat \<Rightarrow> nat \<Rightarrow> string" where
  "fixed_hex 0 n = []"
| "fixed_hex (Suc k) n = fixed_hex k (n div 16) @ [hex_char (n mod 16)]"

definition byte_hex :: "byte \<Rightarrow> string" where
  "byte_hex b = [hex_char (unat b div 16), hex_char (unat b mod 16)]"

section \<open>Conversions to 32 bits\<close>

lemma ToInt32_eqI:
  assumes "- (2 ^ 31) \<le> y" "y < 2 ^ 31" "x mod 2 ^ 32 = y mod 2 ^ 32"
  shows "ToInt32 (Num x) = y"
proof -
  have "(x + 2 ^ 31) mod 2 ^ 32 = (y + 2 ^ 31) mod 2 ^ 32"
    using assms(3) by (rule mod_add_cong) simp
  also have "\<dots> = y + 2 ^ 31" using assms(1,2) by simp
  finally show ?thesis by (simp add: ToInt32_def)
qed

lemma ToInt32_small: "- (2 ^ 31) \<le> x \<Longrightarrow> x < 2 ^ 31 \<Longrightarrow> ToInt32 (Num x) = x"
  by (rule ToInt32_eqI) simp_all

lemma ToInt32_upper: "2 ^ 31 \<le> x \<Longrightarrow> x < 2 ^ 32 \<Longrightarrow> ToInt32 (Num x) = x - 2 ^ 32"
  using minus_mod_self2 [of x "2 ^ 32"] by (intro ToInt32_eqI) simp_all

lemma ToInt32_mod: "ToInt32 (Num x) mod 2 ^ 32 = x mod 2 ^ 32"
proof -
  have "((x + 2 ^ 31) mod 2 ^ 32 - 2 ^ 31) mod 2 ^ 32 = (x + 2 ^ 31 - 2 ^ 31) mod 2 ^ 32"
    by (rule mod_diff_left_eq)
  then show ?thesis by (simp add: ToInt32_def)
qed

lemma mod_256_of_mod_2_32: "(x :: int) mod 2 ^ 32 mod 256 = x mod 256"
  by (rule mod_mod_cancel) simp

lemma ushr0: "ushr (Num x) 0 = Num (x mod 2 ^ 32)"
  by (simp add: ushr_def ToUint32_def)

section \<open>readUint32At: the four bytes, and reads beyond the end\<close>

lemma shl_byte8: "0 \<le> x \<Longrightarrow> x < 256 \<Longrightarrow> shl (Num x) 8 = Num (x * 2 ^ 8)"
  by (simp add: shl_def ToInt32_def)

lemma shl_byte16: "0 \<le> x \<Longrightarrow> x < 256 \<Longrightarrow> shl (Num x) 16 = Num (x * 2 ^ 16)"
  by (simp add: shl_def ToInt32_def)

lemma shl_byte24:
  assumes "0 \<le> x" "x < 256"
  shows "shl (Num x) 24 = Num (if x < 128 then x * 2 ^ 24 else x * 2 ^ 24 - 2 ^ 32)"
proof -
  have i: "ToInt32 (Num x) = x" using assms by (simp add: ToInt32_small)
  show ?thesis
  proof (cases "x < 128")
    case True
    then have "ToInt32 (Num (x * 2 ^ 24)) = x * 2 ^ 24"
      using assms by (intro ToInt32_small) auto
    then show ?thesis using True i by (simp add: shl_def)
  next
    case False
    then have "ToInt32 (Num (x * 2 ^ 24)) = x * 2 ^ 24 - 2 ^ 32"
      using assms by (intro ToInt32_upper) auto
    then show ?thesis using False i by (simp add: shl_def)
  qed
qed

lemma combine_bytes:
  assumes "0 \<le> a" "a < 256" "0 \<le> b" "b < 256" "0 \<le> c" "c < 256" "0 \<le> d" "d < 256"
  shows "ushr (plus_number (plus_number (plus_number (Num a) (shl (Num b) 8))
                  (shl (Num c) 16)) (shl (Num d) 24)) 0
           = Num (a + b * 2 ^ 8 + c * 2 ^ 16 + d * 2 ^ 24)"
proof -
  let ?v = "a + b * 2 ^ 8 + c * 2 ^ 16 + d * 2 ^ 24"
  have r: "0 \<le> ?v" "?v < 2 ^ 32" using assms by auto
  have m: "?v mod 2 ^ 32 = ?v" using r by simp
  have m2: "(?v - 2 ^ 32) mod 2 ^ 32 = ?v"
    using m minus_mod_self2 [of ?v "2 ^ 32"] by simp
  have e: "a + b * 2 ^ 8 + c * 2 ^ 16 + (d * 2 ^ 24 - 2 ^ 32) = ?v - 2 ^ 32" by simp
  show ?thesis
  proof (cases "d < 128")
    case True
    then show ?thesis
      using assms m by (simp add: shl_byte8 shl_byte16 shl_byte24 plus_number_def ushr0)
  next
    case False
    have "ushr (Num (a + b * 2 ^ 8 + c * 2 ^ 16 + (d * 2 ^ 24 - 2 ^ 32))) 0 = Num ?v"
      unfolding e ushr0 using m2 by simp
    then show ?thesis
      using assms False by (simp add: shl_byte8 shl_byte16 shl_byte24 plus_number_def)
  qed
qed

lemma byte_or_zero_range: "0 \<le> byte_or_zero bytes i" "byte_or_zero bytes i < 256"
proof -
  have "uint (bytes ! nat i) < 2 ^ 8" using uint_lt2p [of "bytes ! nat i"] by simp
  then show "byte_or_zero bytes i < 256" by (simp add: byte_or_zero_def)
  show "0 \<le> byte_or_zero bytes i" by (simp add: byte_or_zero_def)
qed

lemma shl_element: "shl (ToNumber (element bytes i)) n = shl (Num (byte_or_zero bytes i)) n"
  by (simp add: shl_def ToNumber_def element_def byte_or_zero_def ToInt32_def)

lemma readUint32At_general:
  "readUint32At bytes index =
     (if 0 \<le> index \<and> index < int (length bytes)
      then Num (byte_or_zero bytes index + byte_or_zero bytes (index + 1) * 2 ^ 8
                + byte_or_zero bytes (index + 2) * 2 ^ 16 + byte_or_zero bytes (index + 3) * 2 ^ 24)
      else Num 0)"
proof (cases "0 \<le> index \<and> index < int (length bytes)")
  case True
  then have e: "ToNumber (element bytes index) = Num (byte_or_zero bytes index)"
    by (simp add: ToNumber_def element_def byte_or_zero_def)
  show ?thesis
    unfolding readUint32At_def shl_element e
    using True by (simp add: combine_bytes byte_or_zero_range)
next
  case False
  then have e: "ToNumber (element bytes index) = NaN"
    by (auto simp add: ToNumber_def element_def)
  show ?thesis
    unfolding readUint32At_def e
    using False by (auto simp add: plus_number_def ushr_def ToUint32_def)
qed

text \<open>
  Claim C7. For every byte sequence and every non-negative offset with
  \<open>offset + 4 \<le> length\<close>, \<open>readUint32At\<close> returns
  \<open>bytes[offset] + bytes[offset+1] * 2^8 + bytes[offset+2] * 2^16 + bytes[offset+3] * 2^24\<close>,
  a value in \<open>[0, 2^32 - 1]\<close>; it returns 1 on \<open>[0x01,0x00,0x00,0x00]\<close> at offset 0 and
  4294967295 on \<open>[0xFF,0xFF,0xFF,0xFF]\<close>.
\<close>

theorem readUint32At_little_endian:
  "(0 \<le> index \<and> index + 4 \<le> int (length bytes) \<longrightarrow>
      (\<exists>v. readUint32At bytes index = Num v
         \<and> v = uint (bytes ! nat index) + uint (bytes ! nat (index + 1)) * 2 ^ 8
               + uint (bytes ! nat (index + 2)) * 2 ^ 16 + uint (bytes ! nat (index + 3)) * 2 ^ 24
         \<and> 0 \<le> v \<and> v \<le> 2 ^ 32 - 1))
   \<and> readUint32At [0x01, 0x00, 0x00, 0x00] 0 = Num 1
   \<and> readUint32At [0xFF, 0xFF, 0xFF, 0xFF] 0 = Num 4294967295"
proof (intro conjI impI)
  assume a: "0 \<le> index \<and> index + 4 \<le> int (length bytes)"
  let ?v = "byte_or_zero bytes index + byte_or_zero bytes (index + 1) * 2 ^ 8
                + byte_or_zero bytes (index + 2) * 2 ^ 16 + byte_or_zero bytes (index + 3) * 2 ^ 24"
  have r: "readUint32At bytes index = Num ?v"
    using a by (simp add: readUint32At_general)
  have b: "0 \<le> ?v" "?v \<le> 2 ^ 32 - 1"
    using byte_or_zero_range [of bytes index] byte_or_zero_range [of bytes "index + 1"]
      byte_or_zero_range [of bytes "index + 2"] byte_or_zero_range [of bytes "index + 3"]
    by auto
  have v: "?v = uint (bytes ! nat index) + uint (bytes ! nat (index + 1)) * 2 ^ 8
               + uint (bytes ! nat (index + 2)) * 2 ^ 16 + uint (bytes ! nat (index + 3)) * 2 ^ 24"
    using a by (simp add: byte_or_zero_def)
  show "\<exists>v. readUint32At bytes index = Num v
         \<and> v = uint (bytes ! nat index) + uint (bytes ! nat (index + 1)) * 2 ^ 8
               + uint (bytes ! nat (index + 2)) * 2 ^ 16 + uint (bytes ! nat (index + 3)) * 2 ^ 24
         \<and> 0 \<le> v \<and> v \<le> 2 ^ 32 - 1"
    using r b v by metis
next
  show "readUint32At [0x01, 0x00, 0x00, 0x00] 0 = Num 1"
    by (simp add: readUint32At_general byte_or_zero_def)
next
  show "readUint32At [0xFF, 0xFF, 0xFF, 0xFF] 0 = Num 4294967295"
    by (simp add: readUint32At_general byte_or_zero_def)
qed

text \<open>Claim C7 at offsets 0 and 1 of a five-byte array.\<close>

theorem readUint32At_little_endian_witness:
  "readUint32At [0x78, 0x56, 0x34, 0x12, 0xFF] 0 = Num 0x12345678
   \<and> readUint32At [0x78, 0x56, 0x34, 0x12, 0xFF] 1 = Num 0xFF123456"
  using readUint32At_little_endian [of 0 "[0x78, 0x56, 0x34, 0x12, 0xFF]"]
    readUint32At_little_endian [of 1 "[0x78, 0x56, 0x34, 0x12, 0xFF]"]
  by simp

text \<open>
  Claim C4 says that \<open>readUint32At\<close> fails with an index error whenever \<open>offset + 4\<close>
  exceeds the length. The function has no bounds check and a typed array read beyond the
  end is \<open>undefined\<close>, not an exception: on the three bytes \<open>[1, 2, 3]\<close> at offset 0 it
  returns 197121.
\<close>

theorem readUint32At_short_counterexample:
  "int (length [0x01, 0x02, 0x03 :: byte]) < 0 + 4
   \<and> readUint32At [0x01, 0x02, 0x03] 0 = Num 197121"
  by (simp add: readUint32At_general byte_or_zero_def)

text \<open>
  Claim C4, amended. For every byte sequence and every offset such that \<open>offset + 4\<close>
  exceeds the length, \<open>readUint32At\<close> does not fail: it returns 0 when \<open>bytes[offset]\<close>
  itself is outside the array, and otherwise the little-endian combination of the bytes
  that exist, every missing byte counting as 0 (so the fourth byte never contributes).
\<close>

theorem readUint32At_out_of_bounds:
  "int (length bytes) < index + 4 \<Longrightarrow>
     readUint32At bytes index =
       (if 0 \<le> index \<and> index < int (length bytes)
        then Num (byte_or_zero bytes index + byte_or_zero bytes (index + 1) * 2 ^ 8
                  + byte_or_zero bytes (index + 2) * 2 ^ 16)
        else Num 0)"
  by (simp add: readUint32At_general byte_or_zero_def)

text \<open>Claim C4, amended, at offsets 0, 2 and 3 of a three-byte array.\<close>

theorem readUint32At_out_of_bounds_witness:
  "int (length [0x01, 0x02, 0x03 :: byte]) < 0 + 4
   \<and> readUint32At [0x01, 0x02, 0x03] 0 = Num (1 + 2 * 2 ^ 8 + 3 * 2 ^ 16)
   \<and> readUint32At [0x01, 0x02, 0x03] 3 = Num 0
   \<and> readUint32At [0x01, 0x02, 0x03] 2 = Num 3"
  using readUint32At_out_of_bounds [of "[0x01, 0x02, 0x03]" 0]
    readUint32At_out_of_bounds [of "[0x01, 0x02, 0x03]" 3]
    readUint32At_out_of_bounds [of "[0x01, 0x02, 0x03]" 2]
  by (simp add: byte_or_zero_def)

section \<open>uint8ToInt8: sign extension of the low byte\<close>

lemma sign_extend_byte: "sar (shl (Num v) 24) 24 = Num ((v + 128) mod 256 - 128)"
proof -
  let ?r = "(v + 128) mod 256 - 128"
  let ?w = "ToInt32 (Num v)"
  have r: "- 128 \<le> ?r" "?r < 128" by simp_all
  have "?w mod 256 = ?w mod 2 ^ 32 mod 256" by (simp only: mod_256_of_mod_2_32)
  also have "\<dots> = v mod 256" by (simp only: ToInt32_mod mod_256_of_mod_2_32)
  finally have w: "?w mod 256 = v mod 256" .
  have "?r mod 256 = (v + 128 - 128) mod 256" by (rule mod_diff_left_eq)
  then have rm: "?r mod 256 = v mod 256" by simp
  have "(?w * 2 ^ 24) mod (256 * 2 ^ 24) = (?w mod 256) * 2 ^ 24"
    by (rule mult_mod_left [symmetric])
  moreover have "(?r * 2 ^ 24) mod (256 * 2 ^ 24) = (?r mod 256) * 2 ^ 24"
    by (rule mult_mod_left [symmetric])
  ultimately have m: "(?w * 2 ^ 24) mod 2 ^ 32 = (?r * 2 ^ 24) mod 2 ^ 32"
    using w rm by simp
  have b: "- (2 ^ 31) \<le> ?r * 2 ^ 24" "?r * 2 ^ 24 < 2 ^ 31" using r by simp_all
  have s: "ToInt32 (Num (?w * 2 ^ 24)) = ?r * 2 ^ 24"
    using b m by (rule ToInt32_eqI)
  have t: "ToInt32 (Num (?r * 2 ^ 24)) = ?r * 2 ^ 24"
    using b by (rule ToInt32_eqI) simp
  show ?thesis
    using s t by (simp add: sar_def shl_def)
qed

text \<open>
  Claim C5 says that \<open>uint8ToInt8\<close> fails for every input outside \<open>[0, 255]\<close>, negative
  inputs included. The guard of the function is \<open>0xFF < input\<close> only: on \<open>-1\<close> it returns
  \<open>-1\<close>.
\<close>

theorem uint8ToInt8_negative_counterexample:
  "(- 1 :: int) < 0 \<and> uint8ToInt8 (- 1) = Inr (Num (- 1))"
  by (simp add: uint8ToInt8_def sign_extend_byte)

text \<open>
  Claim C5, amended. \<open>uint8ToInt8\<close> fails with an out-of-range error for every input
  above 255; for every \<open>v\<close> in \<open>[0, 255]\<close> it returns the two's-complement reinterpretation
  of \<open>v\<close>, that is \<open>v\<close> when \<open>v \<le> 127\<close> and \<open>v - 256\<close> otherwise (0xFF gives -1, 0x80 gives
  -128, 0x7F gives 127); for a negative integer it does not fail and returns the
  two's-complement reading of the low 8 bits of the input.
\<close>

theorem uint8ToInt8_reinterprets:
  "(255 < v \<longrightarrow> uint8ToInt8 v = Inl (OutOfRange v))
   \<and> (0 \<le> v \<and> v \<le> 255 \<longrightarrow> uint8ToInt8 v = Inr (Num (if v \<le> 127 then v else v - 256)))
   \<and> (v < 0 \<longrightarrow> uint8ToInt8 v = Inr (Num ((v + 128) mod 256 - 128)))
   \<and> uint8ToInt8 0xFF = Inr (Num (- 1))
   \<and> uint8ToInt8 0x80 = Inr (Num (- 128))
   \<and> uint8ToInt8 0x7F = Inr (Num 127)"
proof (intro conjI impI)
  assume "255 < v"
  then show "uint8ToInt8 v = Inl (OutOfRange v)" by (simp add: uint8ToInt8_def)
next
  assume a: "0 \<le> v \<and> v \<le> 255"
  show "uint8ToInt8 v = Inr (Num (if v \<le> 127 then v else v - 256))"
  proof (cases "v \<le> 127")
    case True
    then have "(v + 128) mod 256 = v + 128" using a by simp
    then show ?thesis using a True by (simp add: uint8ToInt8_def sign_extend_byte)
  next
    case False
    have "(v + 128) mod 256 = (v + 128 - 256) mod 256" by (simp only: minus_mod_self2)
    also have "\<dots> = v + 128 - 256" using a False by simp
    finally show ?thesis using a False by (simp add: uint8ToInt8_def sign_extend_byte)
  qed
next
  assume "v < 0"
  then show "uint8ToInt8 v = Inr (Num ((v + 128) mod 256 - 128))"
    by (simp add: uint8ToInt8_def sign_extend_byte)
qed (simp_all add: uint8ToInt8_def sign_extend_byte)

text \<open>Claim C5, amended, at 256, 200 and -129.\<close>

theorem uint8ToInt8_reinterprets_witness:
  "uint8ToInt8 256 = Inl (OutOfRange 256)
   \<and> uint8ToInt8 200 = Inr (Num (- 56))
   \<and> uint8ToInt8 (- 129) = Inr (Num 127)"
  using uint8ToInt8_reinterprets [of 256] uint8ToInt8_reinterprets [of 200]
    uint8ToInt8_reinterprets [of "- 129"]
  by simp

section \<open>compact and fromUint: the limb pair\<close>

text \<open>
  Claim C8. For every limb pair \<open>[low, high]\<close> with both limbs in \<open>[0, 2^32)\<close>: if
  \<open>high < 0x00200000\<close> then \<open>compact\<close> returns the number \<open>high * 2^32 + low\<close>, otherwise
  it returns the pair unchanged; \<open>compact([5, 0])\<close> is 5 and
  \<open>compact([0, 0x00200000])\<close> is \<open>[0, 0x00200000]\<close>.
\<close>

theorem compact_limb_pair:
  "(0 \<le> low \<and> low < 2 ^ 32 \<and> 0 \<le> high \<and> high < 2 ^ 32 \<longrightarrow>
      compact [low, high] =
        (if high < 0x00200000 then Numeric (Num (high * 2 ^ 32 + low)) else Uint64 [low, high]))
   \<and> compact [5, 0] = Numeric (Num 5)
   \<and> compact [0, 0x00200000] = Uint64 [0, 0x00200000]"
  by (simp add: compact_def element_of_def ToNumber_def plus_number_def times_number_def)

text \<open>Claim C8 on a pair that is compacted and on one that is not.\<close>

theorem compact_limb_pair_witness:
  "compact [7, 3] = Numeric (Num (3 * 2 ^ 32 + 7))
   \<and> compact [7, 0xFFFFFFFF] = Uint64 [7, 0xFFFFFFFF]"
  using compact_limb_pair [of 7 3] compact_limb_pair [of 7 "0xFFFFFFFF"]
  by simp

lemma fromUint_low: "ToUint32 (ushr (band (Num n) (Num 0xFFFFFFFF)) 0) = n mod 2 ^ 32"
proof -
  have "ToInt32 (Num 0xFFFFFFFF) = - 1" by (simp add: ToInt32_def)
  then have "band (Num n) (Num 0xFFFFFFFF) = Num (ToInt32 (Num n))" by (simp add: band_def)
  then show ?thesis using ToInt32_mod [of n] by (simp add: ushr_def ToUint32_def)
qed

text \<open>
  Claim C9. For every non-negative integer \<open>v \<le> 2^53 - 1\<close>, \<open>fromUint\<close> returns exactly
  \<open>[v mod 2^32, floor(v / 2^32)]\<close>, and \<open>compact(fromUint(v))\<close> is \<open>v\<close>.
\<close>

theorem fromUint_limb_pair:
  assumes "0 \<le> v" "v \<le> 2 ^ 53 - 1"
  shows "fromUint v = [v mod 2 ^ 32, v div 2 ^ 32] \<and> compact (fromUint v) = Numeric (Num v)"
proof -
  have q: "truncated_quotient v 0x100000000 = v div 2 ^ 32"
    using assms(1) by (cases "v = 0") (simp_all add: truncated_quotient_def)
  have h: "0 \<le> v div 2 ^ 32" "v div 2 ^ 32 < 2 ^ 21" using assms by simp_all
  have "v div 2 ^ 32 < 2 ^ 32" using h(2) by simp
  with h(1) have hm: "(v div 2 ^ 32) mod 2 ^ 32 = v div 2 ^ 32" by (rule mod_pos_pos_trivial)
  have f: "fromUint v = [v mod 2 ^ 32, v div 2 ^ 32]"
    unfolding fromUint_def fromUint_low q using hm by (simp add: ushr_def ToUint32_def)
  have "compact [v mod 2 ^ 32, v div 2 ^ 32] = Numeric (Num (v div 2 ^ 32 * 2 ^ 32 + v mod 2 ^ 32))"
    using h by (simp add: compact_def element_of_def ToNumber_def plus_number_def times_number_def)
  then show ?thesis using f by simp
qed

text \<open>Claim C9 at the largest value of the range.\<close>

theorem fromUint_limb_pair_witness:
  "fromUint (2 ^ 53 - 1) = [0xFFFFFFFF, 0x1FFFFF]
   \<and> compact (fromUint (2 ^ 53 - 1)) = Numeric (Num (2 ^ 53 - 1))"
  using fromUint_limb_pair [of "2 ^ 53 - 1"] by auto

section \<open>uintToBuffer and bufferToUint: widths 1, 2 and 4\<close>

lemma length_little_endian_bytes: "length (little_endian_bytes k v) = k"
  by (induction k arbitrary: v) simp_all

lemma little_endian_bytes_numeral:
  "little_endian_bytes (numeral n) v =
     word_of_int v # little_endian_bytes (pred_numeral n) (v div 256)"
  by (simp add: numeral_eq_Suc)

lemma little_endian_value_bytes:
  "little_endian_value (little_endian_bytes k v) = v mod 256 ^ k"
proof (induction k arbitrary: v)
  case 0
  then show ?case by simp
next
  case (Suc k)
  have u: "uint (word_of_int v :: byte) = v mod 256"
    by (simp add: uint_word_of_int)
  have "v mod (256 * 256 ^ k) = 256 * (v div 256 mod 256 ^ k) + v mod 256"
    by (rule zmod_zmult2_eq) simp
  then show ?case using Suc.IH [of "v div 256"] by (simp add: u)
qed

lemma uintToBuffer_supported:
  assumes "k = 1 \<or> k = 2 \<or> k = 4"
  shows "uintToBuffer v (int k) =
           Inr \<lparr>buffer = little_endian_bytes k v, byteOffset = 0, byteLength = k\<rparr>"
  using assms
  by (auto simp add: uintToBuffer_def setUint8_def setUint16_def setUint32_def
      SetViewValue_def NumericToRawBytes_def length_little_endian_bytes)

lemma bufferToUint_whole:
  assumes "k = 1 \<or> k = 2 \<or> k = 4" "length bs = k"
  shows "bufferToUint \<lparr>buffer = bs, byteOffset = 0, byteLength = k\<rparr>
           = Inr (little_endian_value bs)"
  using assms
  by (auto simp add: bufferToUint_def getUint8_def getUint16_def getUint32_def
      GetViewValue_def RawBytesToNumeric_def)

text \<open>
  Claim C6. For every width in \<open>{1, 2, 4}\<close> and every non-negative integer \<open>v\<close> below
  \<open>2^(8 * width)\<close>, \<open>uintToBuffer(v, width)\<close> returns a buffer and \<open>bufferToUint\<close> of that
  buffer is \<open>v\<close>.
\<close>

theorem uint_round_trip:
  assumes "width = 1 \<or> width = 2 \<or> width = 4" "0 \<le> v" "v < 2 ^ (8 * nat width)"
  shows "\<exists>a. uintToBuffer v width = Inr a \<and> bufferToUint a = Inr v"
proof -
  let ?k = "nat width"
  have k: "?k = 1 \<or> ?k = 2 \<or> ?k = 4" "int ?k = width" using assms(1) by auto
  have e: "uintToBuffer v width =
             Inr \<lparr>buffer = little_endian_bytes ?k v, byteOffset = 0, byteLength = ?k\<rparr>"
    using uintToBuffer_supported [OF k(1), of v] k(2) by simp
  have "(256 :: int) ^ ?k = 2 ^ (8 * ?k)" by (simp add: power_mult)
  then have "v mod 256 ^ ?k = v" using assms(2,3) by simp
  then have "bufferToUint \<lparr>buffer = little_endian_bytes ?k v, byteOffset = 0, byteLength = ?k\<rparr>
               = Inr v"
    using bufferToUint_whole [OF k(1), of "little_endian_bytes ?k v"]
    by (simp add: length_little_endian_bytes little_endian_value_bytes)
  then show ?thesis using e by simp
qed

text \<open>Claim C6 at the three widths.\<close>

theorem uint_round_trip_witness:
  "(\<exists>a. uintToBuffer 255 1 = Inr a \<and> bufferToUint a = Inr 255)
   \<and> (\<exists>a. uintToBuffer 0xBEEF 2 = Inr a \<and> bufferToUint a = Inr 0xBEEF)
   \<and> (\<exists>a. uintToBuffer 0xDEADBEEF 4 = Inr a \<and> bufferToUint a = Inr 0xDEADBEEF)"
  using uint_round_trip [of 1 255] uint_round_trip [of 2 "0xBEEF"]
    uint_round_trip [of 4 "0xDEADBEEF"]
  by simp

text \<open>
  Claim C10. For every width in \<open>{1, 2, 4}\<close> and every integer value, negative and
  over-range values included, \<open>uintToBuffer(value, width)\<close> does not fail (the branch that
  wraps an error is not taken), and the buffer it returns has \<open>width\<close> bytes that encode
  \<open>value mod 2^(8 * width)\<close> in little-endian order.
\<close>

theorem uintToBuffer_total:
  assumes "width = 1 \<or> width = 2 \<or> width = 4"
  shows "\<exists>a. uintToBuffer v width = Inr a
           \<and> length (elements a) = nat width
           \<and> elements a = little_endian_bytes (nat width) v
           \<and> little_endian_value (elements a) = v mod 2 ^ (8 * nat width)"
proof -
  let ?k = "nat width"
  have k: "?k = 1 \<or> ?k = 2 \<or> ?k = 4" "int ?k = width" using assms(1) by auto
  have e: "uintToBuffer v width =
             Inr \<lparr>buffer = little_endian_bytes ?k v, byteOffset = 0, byteLength = ?k\<rparr>"
    using uintToBuffer_supported [OF k(1), of v] k(2) by simp
  have p: "(256 :: int) ^ ?k = 2 ^ (8 * ?k)" by (simp add: power_mult)
  have el: "elements \<lparr>buffer = little_endian_bytes ?k v, byteOffset = 0, byteLength = ?k\<rparr>
              = little_endian_bytes ?k v"
    by (simp add: elements_def length_little_endian_bytes)
  show ?thesis
    unfolding e using p by (simp add: el length_little_endian_bytes little_endian_value_bytes)
qed

text \<open>Claim C10 on a negative value, on a value wider than the buffer, and at width 1.\<close>

theorem uintToBuffer_total_witness:
  "(\<exists>a. uintToBuffer (- 1) 2 = Inr a \<and> elements a = [0xFF, 0xFF]
        \<and> little_endian_value (elements a) = 65535)
   \<and> (\<exists>a. uintToBuffer 0x1234567890 4 = Inr a \<and> elements a = [0x90, 0x78, 0x56, 0x34]
        \<and> little_endian_value (elements a) = 0x34567890)
   \<and> (\<exists>a. uintToBuffer 258 1 = Inr a \<and> elements a = [0x02])"
  using uintToBuffer_total [of 2 "- 1"] uintToBuffer_total [of 4 "0x1234567890"]
    uintToBuffer_total [of 1 258]
  by (auto simp add: little_endian_bytes_numeral)

section \<open>bigIntToBuffer: eight bytes, most significant first\<close>

lemma hex_char_props:
  "\<forall>d \<in> set [0..<16]. digit_of (hex_char d) = Some d \<and> \<not> is_whitespace (hex_char d)
     \<and> hex_char d \<noteq> CHR ''+'' \<and> hex_char d \<noteq> CHR ''-''
     \<and> hex_char d \<noteq> CHR ''x'' \<and> hex_char d \<noteq> CHR ''X''"
  by (simp add: upt_rec hex_char_def digit_of_def is_whitespace_def)

lemma hex_char_digit: "d < 16 \<Longrightarrow> digit_of (hex_char d) = Some d"
  and hex_char_ws: "d < 16 \<Longrightarrow> \<not> is_whitespace (hex_char d)"
  and hex_char_plus: "d < 16 \<Longrightarrow> hex_char d \<noteq> CHR ''+''"
  and hex_char_minus: "d < 16 \<Longrightarrow> hex_char d \<noteq> CHR ''-''"
  and hex_char_x: "d < 16 \<Longrightarrow> hex_char d \<noteq> CHR ''x''"
  and hex_char_X: "d < 16 \<Longrightarrow> hex_char d \<noteq> CHR ''X''"
  using hex_char_props by auto

lemma parseInt16_pair:
  assumes "a < 16" "b < 16"
  shows "parseInt16 [hex_char a, hex_char b] = Num (int (a * 16 + b))"
  using assms
  by (simp add: parseInt16_def Let_def hex_char_digit hex_char_ws hex_char_plus hex_char_minus
      hex_char_x hex_char_X parse_digits_def)

lemma parseInt16_byte_hex: "ToUint8 (parseInt16 (byte_hex b)) = b"
proof -
  have "unat b < 2 ^ 8" using unsigned_less [of b] by simp
  then have "unat b div 16 < 16" by simp
  then have "parseInt16 (byte_hex b) = Num (int (unat b div 16 * 16 + unat b mod 16))"
    unfolding byte_hex_def by (intro parseInt16_pair) simp_all
  then have "parseInt16 (byte_hex b) = Num (int (unat b))" by simp
  then show ?thesis by (simp add: ToUint8_def)
qed

lemma length_hex_chunks: "length (concat (map byte_hex bs)) = 2 * length bs"
  by (induction bs) (simp_all add: byte_hex_def)

lemma drop_hex_chunks:
  "drop (2 * k) (concat (map byte_hex bs)) = concat (map byte_hex (drop k bs))"
proof (induction bs arbitrary: k)
  case Nil
  then show ?case by simp
next
  case (Cons b bs)
  show ?case
  proof (cases k)
    case 0
    then show ?thesis by simp
  next
    case (Suc k')
    have "drop (2 * Suc k') (byte_hex b @ concat (map byte_hex bs))
            = drop (2 * k') (concat (map byte_hex bs))"
      by (simp add: byte_hex_def)
    then show ?thesis using Suc Cons.IH [of k'] by simp
  qed
qed

lemma slice_hex_chunks:
  assumes "i < length bs"
  shows "take 2 (drop (2 * i) (concat (map byte_hex bs))) = byte_hex (bs ! i)"
proof -
  have "drop i bs = bs ! i # drop (Suc i) bs" using assms by (simp add: Cons_nth_drop_Suc)
  then have "drop (2 * i) (concat (map byte_hex bs))
               = byte_hex (bs ! i) @ concat (map byte_hex (drop (Suc i) bs))"
    by (simp add: drop_hex_chunks)
  then show ?thesis by (simp add: byte_hex_def)
qed

text \<open>The loop, started at \<open>i\<close> with \<open>j = 2 * i\<close>, keeps the first \<open>i\<close> elements of the
  array and fills the rest with the bytes whose digits the string holds.\<close>

lemma loop_hex_chunks:
  assumes "length u = length bs" "i \<le> length bs"
  shows "bigIntToBuffer_loop (concat (map byte_hex bs)) u i (2 * i) = take i u @ drop i bs"
  using assms
proof (induction "length bs - i" arbitrary: i u)
  case 0
  then have "i = length bs" by simp
  then show ?case
    using 0 by (subst bigIntToBuffer_loop.simps) (simp add: length_hex_chunks)
next
  case (Suc d)
  then have lt: "i < length bs" by simp
  let ?hex = "concat (map byte_hex bs)"
  let ?u = "u[i := bs ! i]"
  have step: "bigIntToBuffer_loop ?hex u i (2 * i) = bigIntToBuffer_loop ?hex ?u (Suc i) (2 * Suc i)"
    using lt
    by (subst bigIntToBuffer_loop.simps)
       (simp add: length_hex_chunks slice_hex_chunks parseInt16_byte_hex)
  have ih: "bigIntToBuffer_loop ?hex ?u (Suc i) (2 * Suc i) = take (Suc i) ?u @ drop (Suc i) bs"
    using Suc lt by (intro Suc.hyps(1)) simp_all
  have "take (Suc i) ?u = take i u @ [bs ! i]"
    using lt Suc.prems by (simp add: take_Suc_conv_app_nth)
  moreover have "drop i bs = bs ! i # drop (Suc i) bs"
    using lt by (simp add: Cons_nth_drop_Suc)
  ultimately show ?case using step ih by simp
qed

lemma fixed_hex_zero: "fixed_hex k 0 = replicate k (CHR ''0'')"
  by (induction k) (simp_all add: hex_char_def replicate_append_same)

lemma length_hex_digits: "0 < k \<Longrightarrow> n < 16 ^ k \<Longrightarrow> length (hex_digits n) \<le> k"
proof (induction k arbitrary: n)
  case 0
  then show ?case by simp
next
  case (Suc k)
  show ?case
  proof (cases "n < 16")
    case True
    then show ?thesis by (subst hex_digits.simps) simp
  next
    case False
    then have k: "0 < k" using Suc.prems by (cases k) auto
    have "n div 16 < 16 ^ k" using Suc.prems by (simp add: less_mult_imp_div_less mult.commute)
    then have "length (hex_digits (n div 16)) \<le> k" using Suc.IH k by simp
    then show ?thesis using False by (subst hex_digits.simps) simp
  qed
qed

lemma padStart_hex_digits:
  "0 < k \<Longrightarrow> n < 16 ^ k \<Longrightarrow> padStart k (CHR ''0'') (hex_digits n) = fixed_hex k n"
proof (induction k arbitrary: n)
  case 0
  then show ?case by simp
next
  case (Suc k)
  show ?case
  proof (cases "n < 16")
    case True
    then have "hex_digits n = [hex_char n]" by (subst hex_digits.simps) simp
    then show ?thesis using True by (simp add: padStart_def fixed_hex_zero)
  next
    case False
    then have k: "0 < k" using Suc.prems by (cases k) auto
    have lt: "n div 16 < 16 ^ k" using Suc.prems by (simp add: less_mult_imp_div_less mult.commute)
    have len: "length (hex_digits (n div 16)) \<le> k" using length_hex_digits k lt by simp
    have h: "hex_digits n = hex_digits (n div 16) @ [hex_char (n mod 16)]"
      using False by (subst hex_digits.simps) simp
    have "padStart (Suc k) (CHR ''0'') (hex_digits n)
            = padStart k (CHR ''0'') (hex_digits (n div 16)) @ [hex_char (n mod 16)]"
      using len by (simp add: h padStart_def)
    then show ?thesis using Suc.IH [OF k lt] by simp
  qed
qed

lemma fixed_hex_bytes:
  "fixed_hex (2 * m) n = concat (map byte_hex (rev (little_endian_bytes m (int n))))"
proof (induction m arbitrary: n)
  case 0
  then show ?case by simp
next
  case (Suc m)
  have u: "unat (word_of_nat n :: byte) = n mod 256"
    by (simp add: unat_of_nat)
  have d: "n mod 256 div 16 = n div 16 mod 16"
    by (simp add: mod_mult2_eq [of n 16 16, simplified])
  have m: "n mod 256 mod 16 = n mod 16"
    by (simp add: mod_mod_cancel)
  have q: "n div 16 div 16 = n div 256" by (simp add: div_mult2_eq [symmetric])
  have z: "int n div 256 = int (n div 256)" by (simp add: zdiv_int)
  show ?case
    using Suc.IH [of "n div 256"] by (simp add: byte_hex_def u d m q z)
qed

lemma little_endian_value_range:
  "0 \<le> little_endian_value bs \<and> little_endian_value bs < 256 ^ length bs"
proof (induction bs)
  case Nil
  then show ?case by simp
next
  case (Cons b bs)
  have "0 \<le> uint b" "uint b < 256" using uint_lt2p [of b] by simp_all
  then show ?case using Cons by simp
qed

lemma little_endian_bytes_value:
  "little_endian_bytes (length bs) (little_endian_value bs) = bs"
proof (induction bs)
  case Nil
  then show ?case by simp
next
  case (Cons b bs)
  have r: "0 \<le> uint b" "uint b < 256" using uint_lt2p [of b] by simp_all
  have z: "(256 :: byte) = 0" by simp
  have q: "(uint b + 256 * little_endian_value bs) div 256 = little_endian_value bs"
    using r by simp
  show ?case using Cons by (simp add: z q)
qed

text \<open>Below \<open>2^64\<close> the result has eight bytes, the most significant first.\<close>

lemma bigIntToBuffer_64:
  assumes "0 \<le> n" "n < 2 ^ 64"
  shows "bigIntToBuffer n = rev (little_endian_bytes 8 n)"
proof -
  have lt: "nat n < 16 ^ 16" using assms by (simp add: nat_less_iff)
  have "padStart 16 (CHR ''0'') (toString16 n) = fixed_hex 16 (nat n)"
    using assms lt by (simp add: toString16_def padStart_hex_digits)
  also have "\<dots> = concat (map byte_hex (rev (little_endian_bytes 8 n)))"
    using fixed_hex_bytes [of 8 "nat n"] assms by simp
  finally have hex: "padStart 16 (CHR ''0'') (toString16 n)
                       = concat (map byte_hex (rev (little_endian_bytes 8 n)))" .
  have len: "length (rev (little_endian_bytes 8 n)) = 8"
    by (simp add: length_little_endian_bytes)
  have "bigIntToBuffer n
          = bigIntToBuffer_loop (concat (map byte_hex (rev (little_endian_bytes 8 n))))
              (replicate 8 0) 0 (2 * 0)"
    unfolding bigIntToBuffer_def hex Let_def length_hex_chunks len by simp
  also have "\<dots> = take 0 (replicate 8 (0 :: byte)) @ drop 0 (rev (little_endian_bytes 8 n))"
    by (rule loop_hex_chunks) (simp_all add: length_little_endian_bytes)
  finally show ?thesis by simp
qed

text \<open>Hence the encoder returns the bytes of a little-endian value in reverse order.\<close>

lemma bigIntToBuffer_little_endian_value:
  assumes "length b = 8"
  shows "bigIntToBuffer (little_endian_value b) = rev b"
proof -
  have r: "0 \<le> little_endian_value b" "little_endian_value b < 2 ^ 64"
    using little_endian_value_range [of b] assms by simp_all
  have "little_endian_bytes 8 (little_endian_value b) = b"
    using little_endian_bytes_value [of b] assms by simp
  then show ?thesis using bigIntToBuffer_64 [OF r] by simp
qed

section \<open>bufferToBigInt: the digits it builds and the array it leaves\<close>

lemmas BigInt_simps = BigInt_def StringToBigInt_def is_whitespace_def signed_decimal_def
  parse_digits_def digit_of_def

text \<open>
  Claim C1 says that for every 8-byte input \<open>bufferToBigInt\<close> returns the little-endian
  value of the bytes. The function writes the reversed bytes as sixteen hexadecimal digits
  and hands that string to \<open>BigInt\<close> without the prefix \<open>0x\<close>, so the digits are read in
  base ten: the input \<open>[0x10, 0, 0, 0, 0, 0, 0, 0]\<close>, whose little-endian value is 16,
  gives 10, and the input \<open>[0x0A, 0, 0, 0, 0, 0, 0, 0]\<close>, whose digit string ends in
  \<open>A\<close>, raises a \<open>SyntaxError\<close>.
\<close>

theorem bufferToBigInt_reads_decimal:
  "fst (bufferToBigInt [0x10, 0, 0, 0, 0, 0, 0, 0]) = Inr 10
   \<and> little_endian_value [0x10, 0, 0, 0, 0, 0, 0, 0] = 16
   \<and> fst (bufferToBigInt [0x0A, 0, 0, 0, 0, 0, 0, 0]) = Inl SyntaxError
   \<and> little_endian_value [0x0A, 0, 0, 0, 0, 0, 0, 0] = 10"
  by (simp add: bufferToBigInt_def Nibble_To_Char_Map_def BigInt_simps)

text \<open>
  Claim C2. For every byte sequence \<open>b\<close> of length exactly 8,
  \<open>bigIntToBuffer(bufferToBigInt(b))\<close> reproduces \<open>b\<close>. The code does not: on
  \<open>[1, 0, 0, 0, 0, 0, 0, 0]\<close> it gives \<open>[0, 0, 0, 0, 0, 0, 0, 1]\<close>, because the decoder reads
  the least significant byte first and the encoder writes the most significant byte first;
  on \<open>[0x10, 0, 0, 0, 0, 0, 0, 0]\<close> and on the bytes 1 to 8 the decoder moreover reads its
  hexadecimal digits in base ten, and the result is neither \<open>b\<close> nor its reverse; on
  \<open>[0x0A, 0, 0, 0, 0, 0, 0, 0]\<close> the round trip ends in a \<open>SyntaxError\<close>.
\<close>

theorem round_trip_does_not_reproduce:
  "round_trip [1, 0, 0, 0, 0, 0, 0, 0] = Inr [0, 0, 0, 0, 0, 0, 0, 1]
   \<and> round_trip [1, 0, 0, 0, 0, 0, 0, 0] \<noteq> Inr [1, 0, 0, 0, 0, 0, 0, 0]
   \<and> round_trip [0x10, 0, 0, 0, 0, 0, 0, 0] = Inr [0, 0, 0, 0, 0, 0, 0, 10]
   \<and> round_trip [1, 2, 3, 4, 5, 6, 7, 8] = Inr [0, 2, 222, 4, 106, 167, 171, 249]
   \<and> round_trip [0x0A, 0, 0, 0, 0, 0, 0, 0] = Inl SyntaxError"
  by (simp add: round_trip_def bufferToBigInt_def Nibble_To_Char_Map_def BigInt_simps
      bigIntToBuffer_64 little_endian_bytes_numeral)

text \<open>
  Claim C3 says that no operation changes the byte sequences it is given, and names the
  8-byte input of \<open>bufferToBigInt\<close>. \<open>input.reverse()\<close> reverses the caller's array in
  place: after the call on the bytes 1 to 8 the array holds 8 down to 1.
\<close>

theorem bufferToBigInt_reverses_input:
  "snd (bufferToBigInt [1, 2, 3, 4, 5, 6, 7, 8]) = [8, 7, 6, 5, 4, 3, 2, 1]
   \<and> snd (bufferToBigInt [1, 2, 3, 4, 5, 6, 7, 8]) \<noteq> [1, 2, 3, 4, 5, 6, 7, 8]"
  by (simp add: bufferToBigInt_def)

end
